theory Spec2Isabelle
  imports Main
begin

section \<open>Global shortcut coordination (main process)\<close>

text \<open>
  Electron's \<open>globalShortcut\<close> module is a library the main process calls. Its registry is
  modelled as a map from accelerator strings to the handler bound to them; what the
  platform answers to a registration attempt is a parameter \<open>os\<close> of every operation that
  registers: the attempt is granted, refused (the call returns false, for instance when
  another application owns the accelerator), or the call throws.
\<close>

datatype handler = ToggleMainWindow | Noop

datatype reg_answer = Granted | Refused | Threw

type_synonym registry = "string \<rightharpoonup> handler"

record hotkeys =
  bindings :: registry
  currentGlobalShortcut :: string

definition gs_unregisterAll :: "registry \<Rightarrow> registry" where
  "gs_unregisterAll r = Map.empty"

definition gs_isRegistered :: "registry \<Rightarrow> string \<Rightarrow> bool" where
  "gs_isRegistered r acc = (r acc \<noteq> None)"

definition gs_unregister :: "registry \<Rightarrow> string \<Rightarrow> registry" where
  "gs_unregister r acc = r(acc := None)"

text \<open>\<open>globalShortcut.register\<close>: \<open>Inl ()\<close> is a thrown exception, \<open>Inr b\<close> the returned flag.\<close>

definition gs_register ::
  "(string \<Rightarrow> reg_answer) \<Rightarrow> registry \<Rightarrow> string \<Rightarrow> handler \<Rightarrow> (unit + bool) \<times> registry" where
  "gs_register os r acc h =
     (case os acc of
        Granted \<Rightarrow> (Inr True, r(acc \<mapsto> h))
      | Refused \<Rightarrow> (Inr False, r)
      | Threw \<Rightarrow> (Inl (), r))"

text \<open>The initial value of the module variable \<open>currentGlobalShortcut\<close>, with nothing bound.\<close>

definition hotkeys_init :: hotkeys where
  "hotkeys_init = \<lparr>bindings = Map.empty, currentGlobalShortcut = ''Ctrl+Alt+Q''\<rparr>"

text \<open>
  \<open>registerGlobalShortcut\<close>: unregister everything, try the new accelerator, remember it
  only when the registration returned true; a thrown exception is caught and logged.
\<close>

definition registerGlobalShortcut :: "(string \<Rightarrow> reg_answer) \<Rightarrow> string \<Rightarrow> hotkeys \<Rightarrow> hotkeys" where
  "registerGlobalShortcut os shortcut s =
     (let r0 = gs_unregisterAll (bindings s) in
      case gs_register os r0 shortcut ToggleMainWindow of
        (Inr ret, r1) \<Rightarrow>
          (if \<not> ret then s\<lparr>bindings := r1\<rparr>
           else s\<lparr>bindings := r1, currentGlobalShortcut := shortcut\<rparr>)
      | (Inl _, r1) \<Rightarrow> s\<lparr>bindings := r1\<rparr>)"

text \<open>The \<open>suspend-shortcut\<close> and \<open>resume-shortcut\<close> handlers.\<close>

definition suspend_shortcut :: "hotkeys \<Rightarrow> hotkeys" where
  "suspend_shortcut s = s\<lparr>bindings := gs_unregisterAll (bindings s)\<rparr>"

definition resume_shortcut :: "(string \<Rightarrow> reg_answer) \<Rightarrow> hotkeys \<Rightarrow> hotkeys" where
  "resume_shortcut os s =
     (if currentGlobalShortcut s \<noteq> [] then registerGlobalShortcut os (currentGlobalShortcut s) s
      else s)"

text \<open>
  The \<open>check-shortcut\<close> handler: the returned flag and the state it leaves. Any exception
  of the body is caught and answered with false.
\<close>

definition check_shortcut :: "(string \<Rightarrow> reg_answer) \<Rightarrow> string \<Rightarrow> hotkeys \<Rightarrow> bool \<times> hotkeys" where
  "check_shortcut os shortcut s =
     (if gs_isRegistered (bindings s) shortcut then (False, s)
      else case gs_register os (bindings s) shortcut Noop of
        (Inr ret, r1) \<Rightarrow>
          (if ret then (True, s\<lparr>bindings := gs_unregister r1 shortcut\<rparr>)
           else (False, s\<lparr>bindings := r1\<rparr>))
      | (Inl _, r1) \<Rightarrow> (False, s\<lparr>bindings := r1\<rparr>))"

section \<open>Histories of shortcut calls\<close>

text \<open>
  The calls that touch the shortcut state, each with what the platform would answer at
  that moment: a call of registerGlobalShortcut (at start-up, when the configuration is
  loaded or saved), and the suspend, resume and check handlers. \<open>last_granted\<close> reads the
  accelerator of the latest registerGlobalShortcut call the platform granted off the
  history, or the default when there is none.
\<close>

datatype hotkey_op = Register string | Suspend | Resume | Check string

fun hotkey_step :: "(string \<Rightarrow> reg_answer) \<times> hotkey_op \<Rightarrow> hotkeys \<Rightarrow> hotkeys" where
  "hotkey_step (os, Register sc) s = registerGlobalShortcut os sc s"
| "hotkey_step (os, Suspend) s = suspend_shortcut s"
| "hotkey_step (os, Resume) s = resume_shortcut os s"
| "hotkey_step (os, Check sc) s = snd (check_shortcut os sc s)"

definition run_hotkeys :: "((string \<Rightarrow> reg_answer) \<times> hotkey_op) list \<Rightarrow> hotkeys \<Rightarrow> hotkeys" where
  "run_hotkeys steps s = foldl (\<lambda>q st. hotkey_step st q) s steps"

fun last_granted :: "((string \<Rightarrow> reg_answer) \<times> hotkey_op) list \<Rightarrow> string \<Rightarrow> string" where
  "last_granted [] d = d"
| "last_granted ((os, Register sc) # rest) d = last_granted rest (if os sc = Granted then sc else d)"
| "last_granted (_ # rest) d = last_granted rest d"

section \<open>Preload event bridge\<close>

text \<open>
  \<open>ipcRenderer\<close> keeps, per channel, the list of listeners in registration order. A
  listener installed by \<open>createChannelBridge\<close> iterates over that bridge's \<open>Set\<close> of
  callbacks; the listener installed by \<open>onNavigate\<close> calls its one callback. Renderer
  callbacks are functions compared by identity, modelled as numbers; a JavaScript \<open>Set\<close>
  iterates in insertion order and holds no element twice, modelled as a list to which an
  element is appended only when absent. A callback is taken to return normally and to
  leave the callback sets alone while a message is dispatched, as the callbacks the
  renderer components register do.
\<close>

type_synonym channel = string
type_synonym callback = nat

datatype listener = Fanout nat | Direct callback

datatype unsubscribe = Unsubscribe nat callback

record preload =
  listeners :: "channel \<Rightarrow> listener list"
  callbacks :: "nat \<Rightarrow> callback list"
  next_bridge :: nat

definition preload_empty :: preload where
  "preload_empty = \<lparr>listeners = (\<lambda>_. []), callbacks = (\<lambda>_. []), next_bridge = 0\<rparr>"

definition set_add :: "'a list \<Rightarrow> 'a \<Rightarrow> 'a list" where
  "set_add xs x = (if x \<in> set xs then xs else xs @ [x])"

definition set_delete :: "'a list \<Rightarrow> 'a \<Rightarrow> 'a list" where
  "set_delete xs x = removeAll x xs"

definition ipc_removeAllListeners :: "channel \<Rightarrow> preload \<Rightarrow> preload" where
  "ipc_removeAllListeners ch p = p\<lparr>listeners := (listeners p)(ch := [])\<rparr>"

definition ipc_on :: "channel \<Rightarrow> listener \<Rightarrow> preload \<Rightarrow> preload" where
  "ipc_on ch l p = p\<lparr>listeners := (listeners p)(ch := listeners p ch @ [l])\<rparr>"

text \<open>
  \<open>createChannelBridge\<close>: a fresh callback set, every old listener of the channel removed,
  one fan-out listener installed. The result is the identity of the new bridge, which
  stands for the subscribe closure returned by the source.
\<close>

definition createChannelBridge :: "channel \<Rightarrow> preload \<Rightarrow> nat \<times> preload" where
  "createChannelBridge ch p =
     (let b = next_bridge p;
          p1 = p\<lparr>callbacks := (callbacks p)(b := []), next_bridge := Suc b\<rparr>;
          p2 = ipc_removeAllListeners ch p1;
          p3 = ipc_on ch (Fanout b) p2
      in (b, p3))"

text \<open>The closure returned by \<open>createChannelBridge\<close>, and the unsubscribe closure it returns.\<close>

definition bridge_subscribe :: "nat \<Rightarrow> callback \<Rightarrow> preload \<Rightarrow> unsubscribe \<times> preload" where
  "bridge_subscribe b cb p =
     (Unsubscribe b cb, p\<lparr>callbacks := (callbacks p)(b := set_add (callbacks p b) cb)\<rparr>)"

fun run_unsubscribe :: "unsubscribe \<Rightarrow> preload \<Rightarrow> preload" where
  "run_unsubscribe (Unsubscribe b cb) p =
     p\<lparr>callbacks := (callbacks p)(b := set_delete (callbacks p b) cb)\<rparr>"

text \<open>Module initialisation: the four bridges, created in source order.\<close>

definition boot_new_message :: "nat \<times> preload" where
  "boot_new_message = createChannelBridge ''new-message'' preload_empty"

definition boot_bot_response :: "nat \<times> preload" where
  "boot_bot_response = createChannelBridge ''bot-response'' (snd boot_new_message)"

definition boot_bot_stream :: "nat \<times> preload" where
  "boot_bot_stream = createChannelBridge ''bot-stream'' (snd boot_bot_response)"

definition boot_focus_input :: "nat \<times> preload" where
  "boot_focus_input = createChannelBridge ''focus-input'' (snd boot_bot_stream)"

definition onNewMessageBridge :: nat where "onNewMessageBridge = fst boot_new_message"
definition onBotResponseBridge :: nat where "onBotResponseBridge = fst boot_bot_response"
definition onBotStreamBridge :: nat where "onBotStreamBridge = fst boot_bot_stream"
definition onFocusInputBridge :: nat where "onFocusInputBridge = fst boot_focus_input"

definition preload_init :: preload where
  "preload_init = snd boot_focus_input"

text \<open>
  The subscription calls of the exposed \<open>api\<close> object, and a call of an unsubscribe closure.
  The first component of the result is what the call returns to the renderer: the
  unsubscribe closure, or nothing.
\<close>

datatype api_call =
    OnNewMessage callback
  | OnBotResponse callback
  | OnBotStream callback
  | OnFocusInput callback
  | OnNavigate callback
  | CallUnsubscribe unsubscribe

fun api_step :: "api_call \<Rightarrow> preload \<Rightarrow> unsubscribe option \<times> preload" where
  "api_step (OnNewMessage cb) p = map_prod Some id (bridge_subscribe onNewMessageBridge cb p)"
| "api_step (OnBotResponse cb) p = map_prod Some id (bridge_subscribe onBotResponseBridge cb p)"
| "api_step (OnBotStream cb) p = map_prod Some id (bridge_subscribe onBotStreamBridge cb p)"
| "api_step (OnFocusInput cb) p = map_prod Some id (bridge_subscribe onFocusInputBridge cb p)"
| "api_step (OnNavigate cb) p = (None, ipc_on ''navigate-route'' (Direct cb) p)"
| "api_step (CallUnsubscribe u) p = (None, run_unsubscribe u p)"

definition run_api :: "api_call list \<Rightarrow> preload \<Rightarrow> preload" where
  "run_api calls p = foldl (\<lambda>q c. snd (api_step c q)) p calls"

text \<open>
  A message arriving on a channel: every listener of the channel runs, in registration
  order; the result lists the callback invocations with their payload, in the order made.
\<close>

fun run_listener :: "preload \<Rightarrow> 'a \<Rightarrow> listener \<Rightarrow> (callback \<times> 'a) list" where
  "run_listener p payload (Fanout b) = map (\<lambda>cb. (cb, payload)) (callbacks p b)"
| "run_listener p payload (Direct cb) = [(cb, payload)]"

definition emit :: "preload \<Rightarrow> channel \<Rightarrow> 'a \<Rightarrow> (callback \<times> 'a) list" where
  "emit p ch payload = concat (map (run_listener p payload) (listeners p ch))"







text \<open>The callbacks passed to \<open>onNavigate\<close> in a call history, one entry per call.\<close>

fun navigate_callbacks :: "api_call list \<Rightarrow> callback list" where
  "navigate_callbacks [] = []"
| "navigate_callbacks (OnNavigate cb # cs) = cb # navigate_callbacks cs"
| "navigate_callbacks (_ # cs) = navigate_callbacks cs"

section \<open>JavaScript string operations\<close>

text \<open>
  Strings are lists of code units; the model's characters are the code units below 256.
  White space is what \<open>String.prototype.trim\<close> and the regular expression class \<open>\s\<close>
  accept in that range: tab, line feed, vertical tab, form feed, carriage return, space
  and the no-break space.
\<close>

definition is_space :: "char \<Rightarrow> bool" where
  "is_space c = (c \<in> {CHR 0x09, CHR 0x0A, CHR 0x0B, CHR 0x0C, CHR 0x0D, CHR 0x20, CHR 0xA0})"

definition trimStart :: "string \<Rightarrow> string" where
  "trimStart s = dropWhile is_space s"

definition trimEnd :: "string \<Rightarrow> string" where
  "trimEnd s = rev (dropWhile is_space (rev s))"

definition trim :: "string \<Rightarrow> string" where
  "trim s = trimStart (trimEnd s)"

definition startsWith :: "string \<Rightarrow> string \<Rightarrow> bool" where
  "startsWith s t = (take (length t) s = t)"

definition endsWith :: "string \<Rightarrow> string \<Rightarrow> bool" where
  "endsWith s t = (length t \<le> length s \<and> drop (length s - length t) s = t)"

section \<open>Chat view (renderer)\<close>

text \<open>
  The transcript types of ChatContext. A tool name is a string, the empty string being
  the falsy name the handler tests for; \<open>result\<close> and \<open>lastChunkLength\<close> are optional.
\<close>

datatype status = Running | Success | StatusError

datatype ChatBlock =
    TextBlock string
  | ThinkingBlock string
  | ToolExecution (tname: string) (targs: string) (tresult: "string option") (tstatus: status)
      (lastChunkLength: "nat option")

datatype role = User | Assistant

record message =
  role :: role
  content :: string
  blocks :: "ChatBlock list"
  logs :: "string option"

text \<open>
  The payload of a bot-stream message, by its \<open>type\<close> field. A field the handler guards
  against being absent or empty is optional; a field it uses unguarded is a string.
  \<open>EOther\<close> is a payload of any other type.
\<close>

datatype stream_event =
    EContent string
  | EAnswer "string option"
  | EThinking string
  | ELog string
  | EToolCall string string
  | EToolCallChunk "string option" "string option"
  | EToolResult string "string option"
  | EError string
  | EFinish
  | EOther string

text \<open>JavaScript truthiness of an optional string, and \<open>x || ''\<close>.\<close>

fun truthy :: "string option \<Rightarrow> bool" where
  "truthy None = False"
| "truthy (Some s) = (s \<noteq> [])"

fun or_empty :: "string option \<Rightarrow> string" where
  "or_empty None = []"
| "or_empty (Some s) = s"

text \<open>\<open>getLastBlock\<close> and \<open>getLastToolExecution\<close>: the last block, when it has the wanted type.\<close>

fun is_text :: "ChatBlock \<Rightarrow> bool" where
  "is_text (TextBlock _) = True"
| "is_text _ = False"

fun is_thinking :: "ChatBlock \<Rightarrow> bool" where
  "is_thinking (ThinkingBlock _) = True"
| "is_thinking _ = False"

fun is_tool :: "ChatBlock \<Rightarrow> bool" where
  "is_tool (ToolExecution _ _ _ _ _) = True"
| "is_tool _ = False"

definition getLastBlock :: "(ChatBlock \<Rightarrow> bool) \<Rightarrow> ChatBlock list \<Rightarrow> ChatBlock option" where
  "getLastBlock has_type bs =
     (if bs \<noteq> [] \<and> has_type (last bs) then Some (last bs) else None)"

definition getLastToolExecution :: "ChatBlock list \<Rightarrow> ChatBlock option" where
  "getLastToolExecution bs = getLastBlock is_tool bs"

text \<open>Writing through the reference to the last block.\<close>

definition set_last :: "'a list \<Rightarrow> 'a \<Rightarrow> 'a list" where
  "set_last bs b = butlast bs @ [b]"

text \<open>Appending text to the last block of the given kind, or pushing a new block.\<close>

definition append_text :: "string \<Rightarrow> ChatBlock list \<Rightarrow> ChatBlock list" where
  "append_text c bs =
     (case getLastBlock is_text bs of
        Some (TextBlock t) \<Rightarrow> set_last bs (TextBlock (t @ c))
      | _ \<Rightarrow> bs @ [TextBlock c])"

definition append_thinking :: "string \<Rightarrow> ChatBlock list \<Rightarrow> ChatBlock list" where
  "append_thinking c bs =
     (case getLastBlock is_thinking bs of
        Some (ThinkingBlock t) \<Rightarrow> set_last bs (ThinkingBlock (t @ c))
      | _ \<Rightarrow> bs @ [ThinkingBlock c])"

definition add_log :: "string \<Rightarrow> message \<Rightarrow> message" where
  "add_log line m = m\<lparr>logs := Some (or_empty (logs m) @ line)\<rparr>"

text \<open>The \<open>answer\<close> branch.\<close>

definition on_answer :: "string option \<Rightarrow> message \<Rightarrow> message" where
  "on_answer c m =
     (if content m = [] \<or> trim (content m) = [] then
        m\<lparr>content := or_empty c,
          blocks := (if blocks m = [] then [TextBlock (or_empty c)]
                     else append_text (or_empty c) (blocks m))\<rparr>
      else m)"

text \<open>The \<open>tool_call\<close> branch.\<close>

definition on_tool_call :: "string \<Rightarrow> string \<Rightarrow> message \<Rightarrow> message" where
  "on_tool_call tool_name argsStr m =
     add_log (''[Tool Call] '' @ tool_name @ ''('' @ argsStr @ '')\<newline>'')
       (case getLastToolExecution (blocks m) of
          Some (ToolExecution n a r st l) \<Rightarrow>
            (if st = Running \<and> n = tool_name
             then m\<lparr>blocks := set_last (blocks m) (ToolExecution n argsStr r st l)\<rparr>
             else m\<lparr>blocks := blocks m @ [ToolExecution tool_name argsStr None Running None]\<rparr>)
        | _ \<Rightarrow> m\<lparr>blocks := blocks m @ [ToolExecution tool_name argsStr None Running None]\<rparr>)"

text \<open>
  The \<open>tool_call_chunk\<close> branch, in its two steps: a chunk with a name opens a new tool
  record or names the running one; then the argument text is appended to the running
  record unless that record's text already ends with it.
\<close>

definition chunk_name_step :: "string option \<Rightarrow> ChatBlock list \<Rightarrow> ChatBlock list" where
  "chunk_name_step nm bs =
     (if truthy nm then
        (case getLastToolExecution bs of
           Some (ToolExecution n a r st l) \<Rightarrow>
             (if st \<noteq> Running \<or> (n \<noteq> [] \<and> n \<noteq> or_empty nm)
              then bs @ [ToolExecution (or_empty nm) [] None Running (Some 0)]
              else if n = []
              then set_last bs (ToolExecution (or_empty nm) a r st
                     (if l = None \<or> l = Some 0 then Some 0 else l))
              else bs)
         | _ \<Rightarrow> bs @ [ToolExecution (or_empty nm) [] None Running (Some 0)])
      else bs)"

definition chunk_args_step :: "string option \<Rightarrow> ChatBlock list \<Rightarrow> ChatBlock list" where
  "chunk_args_step ar bs =
     (case getLastToolExecution bs of
        Some (ToolExecution n a r st l) \<Rightarrow>
          (if truthy ar \<and> st = Running then
             (if endsWith a (or_empty ar) then bs
              else set_last bs (ToolExecution n (a @ or_empty ar) r st
                     (Some (length (a @ or_empty ar)))))
           else bs)
      | _ \<Rightarrow> bs)"

definition on_tool_call_chunk :: "string option \<Rightarrow> string option \<Rightarrow> message \<Rightarrow> message" where
  "on_tool_call_chunk nm ar m = m\<lparr>blocks := chunk_args_step ar (chunk_name_step nm (blocks m))\<rparr>"

text \<open>The \<open>tool_result\<close> branch.\<close>

definition on_tool_result :: "string \<Rightarrow> string option \<Rightarrow> message \<Rightarrow> message" where
  "on_tool_result tool_name res m =
     (let rawResult = or_empty res;
          resultStr = (if length rawResult > 500 then take 500 rawResult @ ''...'' else rawResult)
      in add_log (''[Tool Result] '' @ resultStr @ ''\<newline>'')
           (case getLastToolExecution (blocks m) of
              Some (ToolExecution n a r st l) \<Rightarrow>
                m\<lparr>blocks := set_last (blocks m) (ToolExecution n a (Some rawResult) Success l)\<rparr>
            | _ \<Rightarrow>
                m\<lparr>blocks := blocks m
                    @ [ToolExecution tool_name ''(Missing input)'' (Some rawResult) Success None]\<rparr>))"

text \<open>The dispatch on the event type, applied to the assistant message.\<close>

fun apply_event :: "stream_event \<Rightarrow> message \<Rightarrow> message" where
  "apply_event (EContent c) m = m\<lparr>content := content m @ c, blocks := append_text c (blocks m)\<rparr>"
| "apply_event (EAnswer c) m = on_answer c m"
| "apply_event (EThinking c) m = m\<lparr>blocks := append_thinking c (blocks m)\<rparr>"
| "apply_event (ELog c) m = add_log (''[Log] '' @ c @ ''\<newline>'') m"
| "apply_event (EToolCall tool_name argsStr) m = on_tool_call tool_name argsStr m"
| "apply_event (EToolCallChunk nm ar) m = on_tool_call_chunk nm ar m"
| "apply_event (EToolResult tool_name res) m = on_tool_result tool_name res m"
| "apply_event (EError c) m =
     m\<lparr>content := content m @ ''\<newline>**Error:** '' @ c,
       blocks := blocks m @ [TextBlock (''\<newline>**Error:** '' @ c)]\<rparr>"
| "apply_event EFinish m = m"
| "apply_event (EOther _) m = m"

text \<open>
  The \<open>setMessages\<close> updater of the bot-stream listener: an assistant message is created
  when the transcript does not end with one, then the event is applied to the last message.
\<close>

definition new_assistant :: message where
  "new_assistant = \<lparr>role = Assistant, content = [], blocks = [], logs = Some []\<rparr>"

definition ensure_assistant :: "message list \<Rightarrow> message list" where
  "ensure_assistant ms =
     (if ms = [] \<or> role (last ms) \<noteq> Assistant then ms @ [new_assistant] else ms)"

definition update_messages :: "stream_event \<Rightarrow> message list \<Rightarrow> message list" where
  "update_messages ev ms =
     (let ms1 = ensure_assistant ms in set_last ms1 (apply_event ev (last ms1)))"

text \<open>The component state, and the bot-stream and new-message listeners.\<close>

record chat_view =
  messages :: "message list"
  input :: string
  isTyping :: bool
  isResponding :: bool

fun starts_response :: "stream_event \<Rightarrow> bool" where
  "starts_response (EContent _) = True"
| "starts_response (EAnswer _) = True"
| "starts_response (EThinking _) = True"
| "starts_response (EToolCall _ _) = True"
| "starts_response (EToolCallChunk _ _) = True"
| "starts_response _ = False"

fun is_content_or_answer :: "stream_event \<Rightarrow> bool" where
  "is_content_or_answer (EContent _) = True"
| "is_content_or_answer (EAnswer _) = True"
| "is_content_or_answer _ = False"

fun is_error_or_finish :: "stream_event \<Rightarrow> bool" where
  "is_error_or_finish (EError _) = True"
| "is_error_or_finish EFinish = True"
| "is_error_or_finish _ = False"

text \<open>The argument is \<open>None\<close> for a null payload, which the listener ignores.\<close>

fun onBotStream :: "stream_event option \<Rightarrow> chat_view \<Rightarrow> chat_view" where
  "onBotStream None s = s"
| "onBotStream (Some ev) s =
     (let s1 = s\<lparr>isResponding := (if \<not> isResponding s \<and> starts_response ev then True
                                   else isResponding s)\<rparr>;
          s2 = (if is_content_or_answer ev then s1\<lparr>isTyping := False\<rparr>
                else if is_error_or_finish ev then s1\<lparr>isTyping := False, isResponding := False\<rparr>
                else s1)
      in s2\<lparr>messages := update_messages ev (messages s2)\<rparr>)"

definition onNewMessage :: "string \<Rightarrow> chat_view \<Rightarrow> chat_view" where
  "onNewMessage text s =
     (if text \<noteq> [] then
        s\<lparr>messages := messages s @ [\<lparr>role = User, content = text, blocks = [], logs = None\<rparr>],
          isTyping := True, isResponding := True\<rparr>
      else s)"

text \<open>
  \<open>handleSubmit\<close>. The answer of the configuration check is a parameter; the outcome says
  whether the text went to the main process. The source awaits the check between its two
  guards and the submission; the model runs the handler in one step.
\<close>

datatype config_check = Configured | NotConfigured | CheckFailed

datatype submit_outcome = Blocked | EmptyInput | Redirected | Submitted string

definition handleSubmit :: "config_check \<Rightarrow> chat_view \<Rightarrow> submit_outcome \<times> chat_view" where
  "handleSubmit cfg s =
     (if isResponding s then (Blocked, s)
      else if trim (input s) = [] then (EmptyInput, s)
      else case cfg of
        Configured \<Rightarrow> (Submitted (input s), s\<lparr>input := [], isResponding := True\<rparr>)
      | NotConfigured \<Rightarrow> (Redirected, s)
      | CheckFailed \<Rightarrow> (Redirected, s))"

text \<open>
  \<open>handleKeyDown\<close> answers whether the key's default action is prevented; the send button's
  \<open>disabled\<close> attribute.
\<close>

definition handleKeyDown :: "string \<Rightarrow> chat_view \<Rightarrow> bool" where
  "handleKeyDown key s = (key = ''Enter'' \<and> isResponding s)"

definition send_disabled :: "chat_view \<Rightarrow> bool" where
  "send_disabled s = (trim (input s) = [] \<or> isTyping s \<or> isResponding s)"

definition run_stream :: "stream_event option list \<Rightarrow> chat_view \<Rightarrow> chat_view" where
  "run_stream evs s = foldl (\<lambda>q e. onBotStream e q) s evs"

text \<open>The text a message shows: its text blocks, concatenated.\<close>

fun block_text :: "ChatBlock \<Rightarrow> string" where
  "block_text (TextBlock t) = t"
| "block_text _ = []"

definition shown_text :: "ChatBlock list \<Rightarrow> string" where
  "shown_text bs = concat (map block_text bs)"

text \<open>The initial component state, and the events that end a response.\<close>

definition chat_view_init :: chat_view where
  "chat_view_init = \<lparr>messages = [], input = [], isTyping = False, isResponding = False\<rparr>"

fun terminal :: "stream_event option \<Rightarrow> bool" where
  "terminal None = False"
| "terminal (Some ev) = is_error_or_finish ev"

section \<open>Streaming proxy (main process)\<close>

text \<open>
  \<open>indexOf\<close> answers \<open>None\<close> where JavaScript answers \<open>-1\<close>; \<open>split_on\<close> is
  \<open>String.prototype.split\<close> with a one-character separator, \<open>join\<close> is
  \<open>Array.prototype.join\<close>, and \<open>replace_crlf\<close> is \<open>replace(/\r\n/g, '\n')\<close>.
\<close>

fun indexOf :: "string \<Rightarrow> string \<Rightarrow> nat option" where
  "indexOf [] pat = (if pat = [] then Some 0 else None)"
| "indexOf (c # cs) pat =
     (if startsWith (c # cs) pat then Some 0 else map_option Suc (indexOf cs pat))"

fun split_on :: "char \<Rightarrow> string \<Rightarrow> string list" where
  "split_on sep [] = [[]]"
| "split_on sep (c # cs) =
     (if c = sep then [] # split_on sep cs
      else (case split_on sep cs of l # ls \<Rightarrow> (c # l) # ls | [] \<Rightarrow> [[c]]))"

fun join :: "string \<Rightarrow> string list \<Rightarrow> string" where
  "join sep [] = []"
| "join sep [x] = x"
| "join sep (x # y # ys) = x @ sep @ join sep (y # ys)"

fun replace_crlf :: "string \<Rightarrow> string" where
  "replace_crlf (c # d # cs) =
     (if c = CHR 0x0D \<and> d = CHR 0x0A then CHR 0x0A # replace_crlf cs
      else c # replace_crlf (d # cs))"
| "replace_crlf cs = cs"

definition separator :: string where
  "separator = ''\<newline>\<newline>''"

text \<open>
  What the main process sends on the bot-stream channel: the synthetic finish event, a
  parsed payload, or an error event with its text. \<open>JSON.parse\<close> is a parameter
  \<open>parse\<close>, \<open>None\<close> standing for the exception it throws; \<open>win\<close> says whether
  \<open>chatWindow\<close> is set.
\<close>

datatype 'j payload = FinishPayload | Json 'j | ErrorPayload string

text \<open>\<open>flushEvent\<close>: the data lines of one event text, and the events sent for it.\<close>

definition strip_leading_space :: "string \<Rightarrow> string" where
  "strip_leading_space v = (case v of [] \<Rightarrow> [] | c # cs \<Rightarrow> if is_space c then cs else v)"

definition data_value :: "string \<Rightarrow> string option" where
  "data_value rawLine =
     (let line = trimEnd rawLine in
      if line = [] then None
      else if startsWith line ''data:'' then Some (strip_leading_space (drop 5 line))
      else None)"

definition dataLines :: "string \<Rightarrow> string list" where
  "dataLines eventText = List.map_filter data_value (split_on (CHR 0x0A) eventText)"

definition flushEvent :: "(string \<Rightarrow> 'j option) \<Rightarrow> bool \<Rightarrow> string \<Rightarrow> 'j payload list" where
  "flushEvent parse win eventText =
     (if dataLines eventText = [] then []
      else let dataStr = join ''\<newline>'' (dataLines eventText) in
        if dataStr = ''[DONE]'' then (if win then [FinishPayload] else [])
        else (case parse dataStr of
                Some data \<Rightarrow> (if win then [Json data] else [])
              | None \<Rightarrow> []))"

text \<open>
  The loop of the \<open>data\<close> listener: while the buffer holds a separator, cut the text
  before it, advance past it, flush the text. The result is the events sent, in order, and
  the buffer left.
\<close>

function drain :: "(string \<Rightarrow> 'j option) \<Rightarrow> bool \<Rightarrow> string \<Rightarrow> 'j payload list \<times> string" where
  "drain parse win buffer =
     (case indexOf buffer separator of
        None \<Rightarrow> ([], buffer)
      | Some idx \<Rightarrow>
          (case drain parse win (drop (idx + 2) buffer) of
             (evs, rest) \<Rightarrow> (flushEvent parse win (take idx buffer) @ evs, rest)))"
  by pat_completeness auto
termination
proof (relation "measure (\<lambda>(parse, win, buffer). length buffer)")
  show "wf (measure (\<lambda>(parse, win, buffer). length buffer))"
    by simp
next
  fix parse :: "string \<Rightarrow> 'j option" and win :: bool and buffer :: string and idx :: nat
  assume found: "indexOf buffer separator = Some idx"
  have "buffer \<noteq> []"
    using found by (auto simp: separator_def)
  then show "((parse, win, drop (idx + 2) buffer), (parse, win, buffer))
      \<in> measure (\<lambda>(parse, win, buffer). length buffer)"
    by simp
qed

text \<open>The \<open>data\<close> and \<open>end\<close> listeners of the response.\<close>

definition on_data ::
  "(string \<Rightarrow> 'j option) \<Rightarrow> bool \<Rightarrow> string \<Rightarrow> string \<Rightarrow> 'j payload list \<times> string" where
  "on_data parse win buffer chunk = drain parse win (replace_crlf (buffer @ chunk))"

definition on_end :: "(string \<Rightarrow> 'j option) \<Rightarrow> bool \<Rightarrow> string \<Rightarrow> 'j payload list" where
  "on_end parse win buffer = (if trim buffer \<noteq> [] then flushEvent parse win buffer else [])"

text \<open>A sequence of chunks fed to the \<open>data\<close> listener, from a given buffer.\<close>

fun feed :: "(string \<Rightarrow> 'j option) \<Rightarrow> bool \<Rightarrow> string \<Rightarrow> string list \<Rightarrow> 'j payload list \<times> string" where
  "feed parse win buffer [] = ([], buffer)"
| "feed parse win buffer (chunk # chunks) =
     (case on_data parse win buffer chunk of
        (evs, b) \<Rightarrow> (case feed parse win b chunks of (evs', b') \<Rightarrow> (evs @ evs', b')))"

text \<open>
  A stand-in for \<open>JSON.parse\<close> in closed examples. It accepts exactly the decimal
  integers without sign or leading zero, which are JSON texts, and returns the text as it
  is; it rejects every other text, among them the empty text, which \<open>JSON.parse\<close>
  rejects too.
\<close>

definition parse_integer :: "string \<Rightarrow> string option" where
  "parse_integer s =
     (case s of
        [] \<Rightarrow> None
      | c # cs \<Rightarrow>
          if list_all (\<lambda>d. d \<in> set ''0123456789'') s \<and> (c \<noteq> CHR ''0'' \<or> cs = [])
          then Some s else None)"

text \<open>A non-negative integer in a template literal: its decimal digits.\<close>

definition digit_char :: "nat \<Rightarrow> char" where
  "digit_char d = ''0123456789'' ! d"

function show_nat :: "nat \<Rightarrow> string" where
  "show_nat n = (if n < 10 then [digit_char n] else show_nat (n div 10) @ [digit_char (n mod 10)])"
  by pat_completeness auto
termination
  by (relation "measure id") auto

declare show_nat.simps [simp del]

text \<open>
  The submit-input handler creates the request and registers its callbacks inside a
  \<open>try\<close> block, then returns. Node calls the callbacks later, each from its own turn of the
  event loop, so the handler's \<open>catch\<close> clause covers only what the request creation
  itself throws (\<open>sync_error\<close> below) and not what a callback throws. A turn either sends
  events to the chat window or ends with an exception that reaches the event loop.
\<close>

datatype transport_event =
    RequestError string
  | Response nat
  | ResData string
  | ResEnd
  | ResError string

datatype 'j turn_result = Sent "'j payload list" | Thrown string

record stream_state =
  buffer :: string
  attached :: bool

definition stream_init :: stream_state where
  "stream_init = \<lparr>buffer = [], attached = False\<rparr>"

definition submit_input_sync :: "bool \<Rightarrow> string option \<Rightarrow> 'j payload list" where
  "submit_input_sync win sync_error =
     (case sync_error of
        None \<Rightarrow> []
      | Some err \<Rightarrow> (if win then [ErrorPayload (''Error: '' @ err)] else []))"

text \<open>
  The response callback up to the registration of the response listeners: \<open>Inl\<close> is the
  error it throws.
\<close>

definition response_callback :: "nat \<Rightarrow> string + unit" where
  "response_callback statusCode =
     (if statusCode \<noteq> 200 then Inl (''HTTP error! status: '' @ show_nat statusCode)
      else Inr ())"

fun turn ::
  "(string \<Rightarrow> 'j option) \<Rightarrow> bool \<Rightarrow> transport_event \<Rightarrow> stream_state \<Rightarrow> 'j turn_result \<times> stream_state" where
  "turn parse win (RequestError msg) st =
     (Sent (if win then [ErrorPayload (''Request error: '' @ msg)] else []), st)"
| "turn parse win (Response statusCode) st =
     (case response_callback statusCode of
        Inl err \<Rightarrow> (Thrown err, st)
      | Inr _ \<Rightarrow> (Sent [], st\<lparr>buffer := [], attached := True\<rparr>))"
| "turn parse win (ResData chunk) st =
     (if attached st then
        (case on_data parse win (buffer st) chunk of (evs, b) \<Rightarrow> (Sent evs, st\<lparr>buffer := b\<rparr>))
      else (Sent [], st))"
| "turn parse win ResEnd st =
     (if attached st then (Sent (on_end parse win (buffer st)), st) else (Sent [], st))"
| "turn parse win (ResError msg) st =
     (if attached st then
        (Sent (if win then [ErrorPayload (''Stream error: '' @ msg)] else []), st)
      else (Sent [], st))"

section \<open>Port cleanup (main process)\<close>























section \<open>Theorems: global shortcut coordination\<close>

text \<open>
  C5. Probing (the check-shortcut handler) an accelerator that is currently bound answers
  false and leaves the whole state as it was, so the active binding is neither removed nor
  registered again; probing an accelerator that is not bound and that the platform grants
  answers true and again leaves the state as it was, so nothing stays registered for it.
\<close>

theorem check_shortcut_probe:
  "(bindings s acc \<noteq> None \<longrightarrow> check_shortcut os acc s = (False, s)) \<and>
   (bindings s acc = None \<and> os acc = Granted \<longrightarrow>
      check_shortcut os acc s = (True, s) \<and> bindings (snd (check_shortcut os acc s)) acc = None)"
proof (intro conjI impI)
  assume "bindings s acc \<noteq> None"
  then show "check_shortcut os acc s = (False, s)"
    by (simp add: check_shortcut_def gs_isRegistered_def)
next
  assume free: "bindings s acc = None \<and> os acc = Granted"
  then have "(bindings s)(acc := None) = bindings s"
    by (simp add: fun_upd_idem)
  with free show "check_shortcut os acc s = (True, s)"
    by (simp add: check_shortcut_def gs_isRegistered_def gs_register_def gs_unregister_def)
  with free show "bindings (snd (check_shortcut os acc s)) acc = None"
    by simp
qed

theorem check_shortcut_probe_witness:
  "check_shortcut (\<lambda>_. Granted) ''Ctrl+Alt+Q''
      (hotkeys_init\<lparr>bindings := [''Ctrl+Alt+Q'' \<mapsto> ToggleMainWindow]\<rparr>)
     = (False, hotkeys_init\<lparr>bindings := [''Ctrl+Alt+Q'' \<mapsto> ToggleMainWindow]\<rparr>) \<and>
   check_shortcut (\<lambda>_. Granted) ''Alt+Space''
      (hotkeys_init\<lparr>bindings := [''Ctrl+Alt+Q'' \<mapsto> ToggleMainWindow]\<rparr>)
     = (True, hotkeys_init\<lparr>bindings := [''Ctrl+Alt+Q'' \<mapsto> ToggleMainWindow]\<rparr>)"
  using check_shortcut_probe [of "hotkeys_init\<lparr>bindings := [''Ctrl+Alt+Q'' \<mapsto> ToggleMainWindow]\<rparr>"
          "''Ctrl+Alt+Q''" "\<lambda>_. Granted"]
        check_shortcut_probe [of "hotkeys_init\<lparr>bindings := [''Ctrl+Alt+Q'' \<mapsto> ToggleMainWindow]\<rparr>"
          "''Alt+Space''" "\<lambda>_. Granted"]
  by simp

lemma registerGlobalShortcut_current:
  "currentGlobalShortcut (registerGlobalShortcut os sc s)
     = (if os sc = Granted then sc else currentGlobalShortcut s)"
  by (cases "os sc") (simp_all add: registerGlobalShortcut_def gs_register_def gs_unregisterAll_def)

lemma check_shortcut_current:
  "currentGlobalShortcut (snd (check_shortcut os sc s)) = currentGlobalShortcut s"
  by (cases "os sc") (simp_all add: check_shortcut_def gs_register_def)

lemma hotkey_step_current:
  "currentGlobalShortcut (hotkey_step (os, op) s)
     = (case op of Register sc \<Rightarrow> (if os sc = Granted then sc else currentGlobalShortcut s)
        | _ \<Rightarrow> currentGlobalShortcut s)"
  by (cases op)
     (simp_all add: registerGlobalShortcut_current check_shortcut_current suspend_shortcut_def
        resume_shortcut_def)

lemma run_hotkeys_current:
  "currentGlobalShortcut (run_hotkeys steps s) = last_granted steps (currentGlobalShortcut s)"
proof (induction steps arbitrary: s)
  case Nil
  then show ?case by (simp add: run_hotkeys_def)
next
  case (Cons st steps)
  obtain os op where st: "st = (os, op)" by (cases st)
  have "run_hotkeys (st # steps) s = run_hotkeys steps (hotkey_step st s)"
    by (simp add: run_hotkeys_def)
  then show ?case
    unfolding st by (cases op) (simp_all add: Cons.IH hotkey_step_current del: hotkey_step.simps)
qed

text \<open>
  C10. registerGlobalShortcut always drops every existing binding first. When the new
  registration does not succeed (refused or thrown), no binding is active afterwards and
  the remembered accelerator is unchanged; when it succeeds the new accelerator is the only
  binding and is remembered. A resume after a failed registration therefore behaves as a
  registration of the accelerator remembered before the failure, and binds exactly that
  accelerator when the platform grants it. After any history of calls from the initial
  state, the remembered accelerator is the one of the latest granted registration, or the
  default when none was granted.
\<close>

theorem register_failure_keeps_remembered:
  "(os sc \<noteq> Granted \<longrightarrow>
      bindings (registerGlobalShortcut os sc s) = Map.empty \<and>
      currentGlobalShortcut (registerGlobalShortcut os sc s) = currentGlobalShortcut s) \<and>
   (os sc = Granted \<longrightarrow>
      bindings (registerGlobalShortcut os sc s) = [sc \<mapsto> ToggleMainWindow] \<and>
      currentGlobalShortcut (registerGlobalShortcut os sc s) = sc) \<and>
   (os sc \<noteq> Granted \<and> currentGlobalShortcut s \<noteq> [] \<longrightarrow>
      resume_shortcut os' (registerGlobalShortcut os sc s)
        = registerGlobalShortcut os' (currentGlobalShortcut s) s \<and>
      (os' (currentGlobalShortcut s) = Granted \<longrightarrow>
         bindings (resume_shortcut os' (registerGlobalShortcut os sc s))
           = [currentGlobalShortcut s \<mapsto> ToggleMainWindow] \<and>
         currentGlobalShortcut (resume_shortcut os' (registerGlobalShortcut os sc s))
           = currentGlobalShortcut s)) \<and>
   currentGlobalShortcut (run_hotkeys steps hotkeys_init) = last_granted steps ''Ctrl+Alt+Q''"
proof (intro conjI impI)
  assume "os sc \<noteq> Granted"
  then show "bindings (registerGlobalShortcut os sc s) = Map.empty"
    by (cases "os sc") (simp_all add: registerGlobalShortcut_def gs_register_def gs_unregisterAll_def)
next
  assume "os sc \<noteq> Granted"
  then show "currentGlobalShortcut (registerGlobalShortcut os sc s) = currentGlobalShortcut s"
    by (cases "os sc") (simp_all add: registerGlobalShortcut_def gs_register_def gs_unregisterAll_def)
next
  assume "os sc = Granted"
  then show "bindings (registerGlobalShortcut os sc s) = [sc \<mapsto> ToggleMainWindow]"
    by (simp add: registerGlobalShortcut_def gs_register_def gs_unregisterAll_def)
next
  assume "os sc = Granted"
  then show "currentGlobalShortcut (registerGlobalShortcut os sc s) = sc"
    by (simp add: registerGlobalShortcut_def gs_register_def gs_unregisterAll_def)
next
  assume a: "os sc \<noteq> Granted \<and> currentGlobalShortcut s \<noteq> []"
  then show r: "resume_shortcut os' (registerGlobalShortcut os sc s)
        = registerGlobalShortcut os' (currentGlobalShortcut s) s"
    by (cases "os sc"; cases "os' (currentGlobalShortcut s)")
       (simp_all add: resume_shortcut_def registerGlobalShortcut_def gs_register_def
          gs_unregisterAll_def)
  assume g: "os' (currentGlobalShortcut s) = Granted"
  from g show "bindings (resume_shortcut os' (registerGlobalShortcut os sc s))
           = [currentGlobalShortcut s \<mapsto> ToggleMainWindow]"
    unfolding r by (simp add: registerGlobalShortcut_def gs_register_def gs_unregisterAll_def)
  from g show "currentGlobalShortcut (resume_shortcut os' (registerGlobalShortcut os sc s))
           = currentGlobalShortcut s"
    unfolding r by (simp add: registerGlobalShortcut_def gs_register_def gs_unregisterAll_def)
next
  show "currentGlobalShortcut (run_hotkeys steps hotkeys_init) = last_granted steps ''Ctrl+Alt+Q''"
    by (simp add: run_hotkeys_current hotkeys_init_def)
qed

theorem register_failure_keeps_remembered_witness:
  "bindings (registerGlobalShortcut (\<lambda>a. if a = ''Ctrl+Alt+Q'' then Granted else Refused)
       ''Alt+Space'' (hotkeys_init\<lparr>bindings := [''Ctrl+Alt+Q'' \<mapsto> ToggleMainWindow]\<rparr>)) = Map.empty \<and>
   currentGlobalShortcut (registerGlobalShortcut (\<lambda>a. if a = ''Ctrl+Alt+Q'' then Granted else Refused)
       ''Alt+Space'' (hotkeys_init\<lparr>bindings := [''Ctrl+Alt+Q'' \<mapsto> ToggleMainWindow]\<rparr>)) = ''Ctrl+Alt+Q'' \<and>
   bindings (resume_shortcut (\<lambda>a. if a = ''Ctrl+Alt+Q'' then Granted else Refused)
      (registerGlobalShortcut (\<lambda>a. if a = ''Ctrl+Alt+Q'' then Granted else Refused)
       ''Alt+Space'' (hotkeys_init\<lparr>bindings := [''Ctrl+Alt+Q'' \<mapsto> ToggleMainWindow]\<rparr>)))
     = [''Ctrl+Alt+Q'' \<mapsto> ToggleMainWindow] \<and>
   bindings (registerGlobalShortcut (\<lambda>a. Granted) ''Alt+Space'' hotkeys_init)
     = [''Alt+Space'' \<mapsto> ToggleMainWindow] \<and>
   currentGlobalShortcut (registerGlobalShortcut (\<lambda>a. Granted) ''Alt+Space'' hotkeys_init)
     = ''Alt+Space''"
proof -
  let ?os = "\<lambda>a. if a = ''Ctrl+Alt+Q'' then Granted else Refused"
  let ?s = "hotkeys_init\<lparr>bindings := [''Ctrl+Alt+Q'' \<mapsto> ToggleMainWindow]\<rparr>"
  have cur: "currentGlobalShortcut ?s = ''Ctrl+Alt+Q''"
    by (simp add: hotkeys_init_def)
  have h1: "?os ''Alt+Space'' \<noteq> Granted" by simp
  have h2: "?os ''Alt+Space'' \<noteq> Granted \<and> currentGlobalShortcut ?s \<noteq> []"
    by (simp add: hotkeys_init_def)
  have h3: "?os (currentGlobalShortcut ?s) = Granted"
    by (simp add: hotkeys_init_def)
  have h4: "(\<lambda>a::string. Granted) ''Alt+Space'' = Granted" by simp
  note t = register_failure_keeps_remembered [of ?os "''Alt+Space''" ?s ?os]
  note t' = register_failure_keeps_remembered [of "\<lambda>a. Granted" "''Alt+Space''" hotkeys_init]
  from t h1 have a: "bindings (registerGlobalShortcut ?os ''Alt+Space'' ?s) = Map.empty"
    and b: "currentGlobalShortcut (registerGlobalShortcut ?os ''Alt+Space'' ?s)
              = currentGlobalShortcut ?s"
    by blast+
  from t h2 h3 have c: "bindings (resume_shortcut ?os (registerGlobalShortcut ?os ''Alt+Space'' ?s))
      = [currentGlobalShortcut ?s \<mapsto> ToggleMainWindow]"
    by blast
  from t' h4 have d: "bindings (registerGlobalShortcut (\<lambda>a. Granted) ''Alt+Space'' hotkeys_init)
     = [''Alt+Space'' \<mapsto> ToggleMainWindow]"
    and e: "currentGlobalShortcut (registerGlobalShortcut (\<lambda>a. Granted) ''Alt+Space'' hotkeys_init)
     = ''Alt+Space''"
    by blast+
  from a b c d e show ?thesis
    unfolding cur by (intro conjI)
qed

section \<open>Theorems: preload event bridge\<close>


lemma preload_init_eq:
  "preload_init = \<lparr>listeners = (\<lambda>_. [])(''new-message'' := [Fanout 0], ''bot-response'' := [Fanout 1],
       ''bot-stream'' := [Fanout 2], ''focus-input'' := [Fanout 3]),
     callbacks = (\<lambda>_. []), next_bridge = 4\<rparr>"
  by (simp add: preload_init_def boot_new_message_def boot_bot_response_def boot_bot_stream_def
      boot_focus_input_def createChannelBridge_def Let_def preload_empty_def
      ipc_removeAllListeners_def ipc_on_def fun_eq_iff)


lemma run_api_snoc: "run_api (calls @ [c]) p = snd (api_step c (run_api calls p))"
  by (simp add: run_api_def)
















lemma navigate_callbacks_snoc:
  "navigate_callbacks (cs @ [c]) =
     navigate_callbacks cs @ (case c of OnNavigate cb \<Rightarrow> [cb] | _ \<Rightarrow> [])"
  by (induction cs rule: navigate_callbacks.induct) (auto split: api_call.splits)

lemma api_step_navigate_listeners:
  "listeners (snd (api_step c p)) ''navigate-route'' =
     listeners p ''navigate-route'' @ (case c of OnNavigate cb \<Rightarrow> [Direct cb] | _ \<Rightarrow> [])"
proof (cases c)
  case (CallUnsubscribe u)
  then show ?thesis by (cases u) auto
qed (auto simp: bridge_subscribe_def ipc_on_def)

lemma run_api_navigate_listeners:
  "listeners (run_api calls p) ''navigate-route'' =
     listeners p ''navigate-route'' @ map Direct (navigate_callbacks calls)"
proof (induction calls rule: rev_induct)
  case Nil
  then show ?case by (simp add: run_api_def)
next
  case (snoc c calls)
  then show ?case
    by (simp add: run_api_snoc api_step_navigate_listeners navigate_callbacks_snoc
        split: api_call.splits)
qed

lemma navigate_callbacks_replicate:
  "navigate_callbacks (replicate n (OnNavigate cb)) = replicate n cb"
  by (induction n) auto



text \<open>
  C9. onNavigate returns no unsubscribe closure and adds one more listener to the
  navigate-route channel on every call: after any call history the channel has one listener
  per onNavigate call made, and a message on it invokes one callback per call; after n calls
  with the same callback there are n listeners and that callback runs n times.
\<close>

theorem onNavigate_accumulates_listeners:
  "fst (api_step (OnNavigate cb) p) = None \<and>
   listeners (run_api calls preload_init) ''navigate-route''
     = map Direct (navigate_callbacks calls) \<and>
   emit (run_api calls preload_init) ''navigate-route'' route
     = map (\<lambda>c. (c, route)) (navigate_callbacks calls) \<and>
   length (listeners (run_api (replicate n (OnNavigate cb)) preload_init) ''navigate-route'') = n \<and>
   emit (run_api (replicate n (OnNavigate cb)) preload_init) ''navigate-route'' route
     = replicate n (cb, route)"
proof -
  have l: "listeners (run_api cs preload_init) ''navigate-route''
     = map Direct (navigate_callbacks cs)" for cs
    by (simp add: run_api_navigate_listeners preload_init_eq)
  have e: "emit (run_api cs preload_init) ''navigate-route'' route
     = map (\<lambda>c. (c, route)) (navigate_callbacks cs)" for cs
    by (simp add: emit_def l comp_def)
  show ?thesis
    by (simp add: l e navigate_callbacks_replicate map_replicate)
qed

section \<open>Theorems: chat view\<close>

lemma onBotStream_keeps_responding:
  "isResponding s \<Longrightarrow> \<not> terminal e \<Longrightarrow> isResponding (onBotStream e s)"
  by (cases e) (auto simp: Let_def)

lemma run_stream_keeps_responding:
  "isResponding s \<Longrightarrow> \<forall>e\<in>set evs. \<not> terminal e \<Longrightarrow> isResponding (run_stream evs s)"
  unfolding run_stream_def
  by (induction evs arbitrary: s) (simp_all add: onBotStream_keeps_responding)

lemma onBotStream_terminal:
  "terminal e \<Longrightarrow> \<not> isResponding (onBotStream e s) \<and> \<not> isTyping (onBotStream e s)
     \<and> input (onBotStream e s) = input s"
  by (cases e; cases "the e") (auto simp: Let_def)

text \<open>
  C7. A submission sets isResponding, whether it comes from handleSubmit or arrives as a
  new-message. From a responding state, any run of stream events without an error or finish
  event leaves isResponding set, and in that state handleSubmit blocks, Enter is prevented
  and the send button is disabled. An error or finish event clears isResponding; after it
  Enter is no longer prevented and a non-blank input is submitted again.
\<close>

theorem session_gate:
  "(fst (handleSubmit cfg s) = Submitted t \<longrightarrow> isResponding (snd (handleSubmit cfg s))) \<and>
   (text \<noteq> [] \<longrightarrow> isResponding (onNewMessage text s)) \<and>
   (isResponding s \<and> (\<forall>e\<in>set evs. \<not> terminal e) \<longrightarrow>
      isResponding (run_stream evs s) \<and>
      handleSubmit cfg (run_stream evs s) = (Blocked, run_stream evs s) \<and>
      handleKeyDown ''Enter'' (run_stream evs s) \<and>
      send_disabled (run_stream evs s)) \<and>
   (terminal e \<longrightarrow>
      \<not> isResponding (onBotStream e s) \<and>
      \<not> handleKeyDown ''Enter'' (onBotStream e s) \<and>
      (trim (input s) \<noteq> [] \<longrightarrow>
         \<not> send_disabled (onBotStream e s) \<and>
         fst (handleSubmit Configured (onBotStream e s)) = Submitted (input s)))"
proof (intro conjI impI)
  assume "fst (handleSubmit cfg s) = Submitted t"
  then show "isResponding (snd (handleSubmit cfg s))"
    by (cases cfg) (auto simp: handleSubmit_def split: if_splits)
next
  assume "text \<noteq> []"
  then show "isResponding (onNewMessage text s)"
    by (simp add: onNewMessage_def)
next
  assume a: "isResponding s \<and> (\<forall>e\<in>set evs. \<not> terminal e)"
  then show r: "isResponding (run_stream evs s)"
    by (simp add: run_stream_keeps_responding)
  from r show "handleSubmit cfg (run_stream evs s) = (Blocked, run_stream evs s)"
    by (simp add: handleSubmit_def)
  from r show "handleKeyDown ''Enter'' (run_stream evs s)"
    by (simp add: handleKeyDown_def)
  from r show "send_disabled (run_stream evs s)"
    by (simp add: send_disabled_def)
next
  assume t: "terminal e"
  then show "\<not> isResponding (onBotStream e s)"
    by (simp add: onBotStream_terminal)
  from t show "\<not> handleKeyDown ''Enter'' (onBotStream e s)"
    by (simp add: handleKeyDown_def onBotStream_terminal)
  assume i: "trim (input s) \<noteq> []"
  from t i show "\<not> send_disabled (onBotStream e s)"
    by (simp add: send_disabled_def onBotStream_terminal)
  from t i show "fst (handleSubmit Configured (onBotStream e s)) = Submitted (input s)"
    by (simp add: handleSubmit_def onBotStream_terminal)
qed

theorem session_gate_witness:
  "isResponding (snd (handleSubmit Configured (chat_view_init\<lparr>input := ''hi''\<rparr>))) \<and>
   isResponding (onNewMessage ''hi'' (chat_view_init\<lparr>input := ''hi''\<rparr>)) \<and>
   handleSubmit Configured
      (run_stream [Some (EContent ''a''), None, Some (EToolCallChunk (Some ''t'') None)]
         (chat_view_init\<lparr>input := ''more'', isResponding := True\<rparr>))
     = (Blocked, run_stream [Some (EContent ''a''), None, Some (EToolCallChunk (Some ''t'') None)]
         (chat_view_init\<lparr>input := ''more'', isResponding := True\<rparr>)) \<and>
   fst (handleSubmit Configured
      (onBotStream (Some EFinish) (chat_view_init\<lparr>input := ''more'', isResponding := True\<rparr>)))
     = Submitted ''more''"
proof -
  let ?u = "chat_view_init\<lparr>input := ''hi''\<rparr>"
  let ?s = "chat_view_init\<lparr>input := ''more'', isResponding := True\<rparr>"
  let ?evs = "[Some (EContent ''a''), None, Some (EToolCallChunk (Some ''t'') None)]"
  have h1: "fst (handleSubmit Configured ?u) = Submitted ''hi''"
    by (simp add: handleSubmit_def chat_view_init_def)
       (simp add: trim_def trimStart_def trimEnd_def is_space_def)
  have h2: "isResponding ?s \<and> (\<forall>e\<in>set ?evs. \<not> terminal e)"
    by simp
  have h3: "terminal (Some EFinish)" by simp
  have h4: "trim (input ?s) \<noteq> []"
    by (simp add: trim_def trimStart_def trimEnd_def is_space_def)
  have i: "input ?s = ''more''" by simp
  note t0 = session_gate [of Configured ?u "''hi''" "''hi''" ?evs "Some EFinish"]
  note t = session_gate [of Configured ?s "''hi''" "''x''" ?evs "Some EFinish"]
  have a: "isResponding (snd (handleSubmit Configured ?u))"
    by (rule t0 [THEN conjunct1, THEN mp, OF h1])
  have h0: "''hi'' \<noteq> []" by simp
  have a': "isResponding (onNewMessage ''hi'' ?u)"
    by (rule t0 [THEN conjunct2, THEN conjunct1, THEN mp, OF h0])
  have b: "handleSubmit Configured (run_stream ?evs ?s) = (Blocked, run_stream ?evs ?s)"
    by (rule t [THEN conjunct2, THEN conjunct2, THEN conjunct1, THEN mp, OF h2,
          THEN conjunct2, THEN conjunct1])
  have "fst (handleSubmit Configured (onBotStream (Some EFinish) ?s)) = Submitted (input ?s)"
    by (rule t [THEN conjunct2, THEN conjunct2, THEN conjunct2, THEN mp, OF h3,
          THEN conjunct2, THEN conjunct2, THEN mp, OF h4, THEN conjunct2])
  then have c: "fst (handleSubmit Configured (onBotStream (Some EFinish) ?s)) = Submitted ''more''"
    unfolding i .
  from a a' b c show ?thesis by (intro conjI)
qed

lemma endsWith_iff: "endsWith a x \<longleftrightarrow> (\<exists>p. a = p @ x)"
proof
  assume "endsWith a x"
  then have "a = take (length a - length x) a @ x"
    by (metis append_take_drop_id endsWith_def)
  then show "\<exists>p. a = p @ x" ..
next
  assume "\<exists>p. a = p @ x"
  then show "endsWith a x"
    by (auto simp: endsWith_def)
qed

lemma getLastBlock_Some:
  "getLastBlock P bs = Some b \<Longrightarrow> bs = butlast bs @ [b] \<and> P b"
  by (auto simp: getLastBlock_def split: if_splits)

lemma shown_text_append: "shown_text (xs @ ys) = shown_text xs @ shown_text ys"
  by (simp add: shown_text_def)

lemma shown_text_append_text: "shown_text (append_text c bs) = shown_text bs @ c"
proof (cases "getLastBlock is_text bs")
  case None
  then show ?thesis
    by (simp add: append_text_def shown_text_append) (simp add: shown_text_def)
next
  case (Some b)
  from getLastBlock_Some [OF Some] obtain t where b: "b = TextBlock t" and bs: "bs = butlast bs @ [TextBlock t]"
    by (cases b) auto
  have "shown_text bs = shown_text (butlast bs) @ t"
    by (subst bs) (simp add: shown_text_def)
  with Some b show ?thesis
    by (simp add: append_text_def set_last_def shown_text_append) (simp add: shown_text_def)
qed

lemma last_update_messages:
  "last (update_messages ev ms) = apply_event ev (last (ensure_assistant ms))"
  "butlast (update_messages ev ms) = butlast (ensure_assistant ms)"
  by (simp_all add: update_messages_def Let_def set_last_def)

text \<open>
  C8. When an answer event arrives and the assistant message has no content yet (empty or
  white space only), the answer's text becomes the content, and the text shown by the
  blocks is the text shown before followed by the answer, once. When content that is not
  blank was already received, the answer event changes nothing in the transcript, so none
  of the received text is repeated.
\<close>

theorem answer_populates_without_duplication:
  "(trim (content (last (ensure_assistant ms))) = [] \<longrightarrow>
      content (last (update_messages (EAnswer c) ms)) = or_empty c \<and>
      shown_text (blocks (last (update_messages (EAnswer c) ms)))
        = shown_text (blocks (last (ensure_assistant ms))) @ or_empty c) \<and>
   (trim (content (last (ensure_assistant ms))) \<noteq> [] \<longrightarrow>
      update_messages (EAnswer c) ms = ensure_assistant ms)"
proof (intro conjI impI)
  let ?m = "last (ensure_assistant ms)"
  assume b: "trim (content ?m) = []"
  then show "content (last (update_messages (EAnswer c) ms)) = or_empty c"
    by (simp add: last_update_messages on_answer_def)
  from b show "shown_text (blocks (last (update_messages (EAnswer c) ms)))
        = shown_text (blocks ?m) @ or_empty c"
    by (simp add: last_update_messages on_answer_def shown_text_append_text)
       (simp add: shown_text_def)
next
  let ?m = "last (ensure_assistant ms)"
  assume nb: "trim (content ?m) \<noteq> []"
  then have "content ?m \<noteq> []"
    by (auto simp: trim_def trimStart_def trimEnd_def)
  with nb have "apply_event (EAnswer c) ?m = ?m"
    by (simp add: on_answer_def)
  moreover have "ensure_assistant ms \<noteq> []"
    by (simp add: ensure_assistant_def)
  ultimately show "update_messages (EAnswer c) ms = ensure_assistant ms"
    by (simp add: update_messages_def Let_def set_last_def)
qed

theorem answer_populates_without_duplication_witness:
  "content (last (update_messages (EAnswer (Some ''42''))
       [\<lparr>role = User, content = ''q'', blocks = [], logs = None\<rparr>])) = ''42'' \<and>
   update_messages (EAnswer (Some ''Hello world''))
       [\<lparr>role = Assistant, content = ''Hel'', blocks = [TextBlock ''Hel''], logs = Some []\<rparr>]
     = [\<lparr>role = Assistant, content = ''Hel'', blocks = [TextBlock ''Hel''], logs = Some []\<rparr>]"
proof -
  let ?u = "[\<lparr>role = User, content = ''q'', blocks = [], logs = None\<rparr>]"
  let ?a = "[\<lparr>role = Assistant, content = ''Hel'', blocks = [TextBlock ''Hel''], logs = Some []\<rparr>]"
  have h1: "trim (content (last (ensure_assistant ?u))) = []"
    by (simp add: ensure_assistant_def new_assistant_def trim_def trimStart_def trimEnd_def)
  have e: "ensure_assistant ?a = ?a"
    by (simp add: ensure_assistant_def)
  have h2: "trim (content (last (ensure_assistant ?a))) \<noteq> []"
    by (simp add: e trim_def trimStart_def trimEnd_def is_space_def)
  have a: "content (last (update_messages (EAnswer (Some ''42'')) ?u)) = or_empty (Some ''42'')"
    by (rule answer_populates_without_duplication [of ?u "Some ''42''",
          THEN conjunct1, THEN mp, OF h1, THEN conjunct1])
  have "update_messages (EAnswer (Some ''Hello world'')) ?a = ensure_assistant ?a"
    by (rule answer_populates_without_duplication [of ?a "Some ''Hello world''",
          THEN conjunct2, THEN mp, OF h2])
  then have b: "update_messages (EAnswer (Some ''Hello world'')) ?a = ?a"
    unfolding e .
  from a b show ?thesis by simp
qed

lemma getLastTool_snoc:
  "getLastToolExecution (bs @ [b]) = (if is_tool b then Some b else None)"
  by (simp add: getLastToolExecution_def getLastBlock_def)

lemma chunk_args_step_duplicate:
  assumes "getLastToolExecution bs = Some (ToolExecution n a r st l)" and "a = p @ x"
  shows "chunk_args_step (Some x) bs = bs"
  using assms by (simp add: chunk_args_step_def endsWith_iff)

lemma chunk_args_step_snoc:
  "chunk_args_step ar (bs @ [b]) = bs @ [last (chunk_args_step ar (bs @ [b]))]"
  by (auto simp: chunk_args_step_def getLastTool_snoc set_last_def
      split: option.splits ChatBlock.splits)

lemma chunk_name_step_tool:
  "getLastToolExecution bs = Some (ToolExecution n a r st l) \<Longrightarrow>
   chunk_name_step nm bs =
     (if truthy nm then
        (if st \<noteq> Running \<or> (n \<noteq> [] \<and> n \<noteq> or_empty nm)
         then bs @ [ToolExecution (or_empty nm) [] None Running (Some 0)]
         else if n = []
         then set_last bs (ToolExecution (or_empty nm) a r st
                (if l = None \<or> l = Some 0 then Some 0 else l))
         else bs)
      else bs)"
  by (simp add: chunk_name_step_def)

text \<open>
  C4. When the last block is a tool record whose accumulated arguments end with the text of
  an incoming tool_call_chunk, processing the chunk leaves that record's arguments (hence
  their length), result and status as they were and leaves every earlier block untouched;
  when the chunk carries no name, or the name of that running record, the whole message is
  unchanged: the chunk is dropped, not appended.
\<close>

theorem duplicate_chunk_not_appended:
  assumes "getLastToolExecution (blocks m) = Some (ToolExecution n a r st l)"
    and "a = p @ x"
  shows "(\<exists>n' l'. blocks (apply_event (EToolCallChunk nm (Some x)) m) ! (length (blocks m) - 1)
            = ToolExecution n' a r st l') \<and>
         take (length (blocks m) - 1) (blocks (apply_event (EToolCallChunk nm (Some x)) m))
            = butlast (blocks m) \<and>
         (\<not> truthy nm \<or> (st = Running \<and> n = or_empty nm) \<longrightarrow>
            apply_event (EToolCallChunk nm (Some x)) m = m)"
proof -
  let ?bs = "blocks m"
  let ?t = "ToolExecution n a r st l"
  from assms(1) have bs: "?bs = butlast ?bs @ [?t]"
    using getLastBlock_Some [of is_tool ?bs ?t] by (simp add: getLastToolExecution_def)
  have len: "length (butlast ?bs) = length ?bs - 1" by simp
  have dup: "chunk_args_step (Some x) ?bs = ?bs"
    using assms by (rule chunk_args_step_duplicate)
  have "chunk_name_step nm ?bs = ?bs \<or>
        (n = [] \<and> chunk_name_step nm ?bs
           = set_last ?bs (ToolExecution (or_empty nm) a r st
               (if l = None \<or> l = Some 0 then Some 0 else l))) \<or>
        chunk_name_step nm ?bs = ?bs @ [ToolExecution (or_empty nm) [] None Running (Some 0)]"
    by (simp add: chunk_name_step_tool [OF assms(1)])
  then consider (same) "chunk_name_step nm ?bs = ?bs"
    | (named) "n = []" "chunk_name_step nm ?bs
         = set_last ?bs (ToolExecution (or_empty nm) a r st (if l = None \<or> l = Some 0 then Some 0 else l))"
    | (opened) "chunk_name_step nm ?bs = ?bs @ [ToolExecution (or_empty nm) [] None Running (Some 0)]"
    by blast
  then have main: "(\<exists>n' l'. chunk_args_step (Some x) (chunk_name_step nm ?bs) ! (length ?bs - 1)
            = ToolExecution n' a r st l') \<and>
         take (length ?bs - 1) (chunk_args_step (Some x) (chunk_name_step nm ?bs)) = butlast ?bs"
  proof cases
    case same
    have "?bs ! (length ?bs - 1) = ?t"
      by (subst bs) (simp only: len [symmetric] nth_append_length)
    moreover have "take (length ?bs - 1) ?bs = butlast ?bs"
      by (simp add: butlast_conv_take)
    ultimately show ?thesis
      by (simp add: same dup)
  next
    case named
    let ?t' = "ToolExecution (or_empty nm) a r st (if l = None \<or> l = Some 0 then Some 0 else l)"
    have g: "getLastToolExecution (butlast ?bs @ [?t']) = Some ?t'"
      by (simp add: getLastTool_snoc)
    have "chunk_args_step (Some x) (butlast ?bs @ [?t']) = butlast ?bs @ [?t']"
      using g assms(2) by (rule chunk_args_step_duplicate)
    then have e: "chunk_args_step (Some x) (chunk_name_step nm ?bs) = butlast ?bs @ [?t']"
      by (simp add: named set_last_def)
    have "(butlast ?bs @ [?t']) ! (length ?bs - 1) = ?t'"
      by (simp only: len [symmetric] nth_append_length)
    moreover have "take (length ?bs - 1) (butlast ?bs @ [?t']) = butlast ?bs"
      by (simp only: len [symmetric]) simp
    ultimately show ?thesis
      unfolding e by blast
  next
    case opened
    let ?nb = "ToolExecution (or_empty nm) [] None Running (Some 0)"
    obtain z where e: "chunk_args_step (Some x) (?bs @ [?nb]) = ?bs @ [z]"
      using chunk_args_step_snoc by blast
    have "(?bs @ [z]) ! (length ?bs - 1) = ?bs ! (length ?bs - 1)"
      using bs by (metis append_is_Nil_conv diff_less length_greater_0_conv less_one
          not_Cons_self2 nth_append)
    moreover have "?bs ! (length ?bs - 1) = ?t"
      by (subst bs) (simp only: len [symmetric] nth_append_length)
    moreover have "take (length ?bs - 1) (?bs @ [z]) = butlast ?bs"
      by (simp add: butlast_conv_take)
    ultimately show ?thesis
      by (simp add: opened e)
  qed
  have unchanged: "apply_event (EToolCallChunk nm (Some x)) m = m"
    if "\<not> truthy nm \<or> (st = Running \<and> n = or_empty nm)"
  proof -
    from that have "chunk_name_step nm ?bs = ?bs"
      unfolding chunk_name_step_tool [OF assms(1)] by (cases nm) auto
    then show ?thesis
      by (simp add: on_tool_call_chunk_def dup)
  qed
  from main unchanged show ?thesis
    by (simp add: on_tool_call_chunk_def)
qed

theorem duplicate_chunk_not_appended_witness:
  "getLastToolExecution [ToolExecution ''search'' ''q=abc'' None Running (Some 5)]
     = Some (ToolExecution ''search'' ''q=abc'' None Running (Some 5)) \<and>
   ''q=abc'' = ''q='' @ ''abc'' \<and>
   apply_event (EToolCallChunk None (Some ''abc''))
      \<lparr>role = Assistant, content = [],
        blocks = [ToolExecution ''search'' ''q=abc'' None Running (Some 5)], logs = Some []\<rparr>
     = \<lparr>role = Assistant, content = [],
        blocks = [ToolExecution ''search'' ''q=abc'' None Running (Some 5)], logs = Some []\<rparr>"
proof -
  let ?m = "\<lparr>role = Assistant, content = [],
        blocks = [ToolExecution ''search'' ''q=abc'' None Running (Some 5)], logs = Some []\<rparr>"
  have h1: "getLastToolExecution (blocks ?m)
     = Some (ToolExecution ''search'' ''q=abc'' None Running (Some 5))"
    by (simp add: getLastToolExecution_def getLastBlock_def)
  have h2: "''q=abc'' = ''q='' @ ''abc''" by simp
  have h3: "\<not> truthy None" by simp
  have g: "blocks ?m = [ToolExecution ''search'' ''q=abc'' None Running (Some 5)]"
    by simp
  have h5: "apply_event (EToolCallChunk None (Some ''abc'')) ?m = ?m"
    by (rule duplicate_chunk_not_appended [OF h1 h2, of None,
          THEN conjunct2, THEN conjunct2, THEN mp, OF disjI1, OF h3])
  from h1 [unfolded g] h2 h5 show ?thesis by (intro conjI)
qed

section \<open>Theorems: stream decoder\<close>

lemma indexOf_self: "indexOf (p @ t) p = Some 0"
proof (cases "p @ t")
  case Nil
  then show ?thesis by simp
next
  case (Cons a list)
  have "startsWith (p @ t) p"
    by (simp add: startsWith_def)
  then show ?thesis
    unfolding Cons by simp
qed

lemma indexOf_Some:
  "indexOf s pat = Some i \<Longrightarrow> take i s @ pat = take (i + length pat) s \<and> i + length pat \<le> length s"
proof (induction s arbitrary: i)
  case Nil
  then show ?case by (simp split: if_splits)
next
  case (Cons c cs)
  show ?case
  proof (cases "startsWith (c # cs) pat")
    case True
    with Cons.prems have i: "i = 0" by simp
    from True have t: "take (length pat) (c # cs) = pat"
      by (simp add: startsWith_def)
    have "length (take (length pat) (c # cs)) \<le> length (c # cs)"
      by (simp only: length_take min.cobounded1)
    then have "length pat \<le> length (c # cs)"
      unfolding t .
    with t i show ?thesis by simp
  next
    case False
    with Cons.prems obtain j where j: "indexOf cs pat = Some j" and i: "i = Suc j"
      by auto
    from Cons.IH [OF j] i show ?thesis by simp
  qed
qed

lemma indexOf_take:
  "indexOf s pat = Some i \<Longrightarrow> indexOf (take i s @ pat) pat = Some i"
proof (induction s arbitrary: i)
  case Nil
  then show ?case by (simp split: if_splits)
next
  case (Cons c cs)
  show ?case
  proof (cases "startsWith (c # cs) pat")
    case True
    with Cons.prems have "i = 0" by simp
    then show ?thesis
      using indexOf_self [of pat "[]"] by simp
  next
    case False
    with Cons.prems obtain j where j: "indexOf cs pat = Some j" and i: "i = Suc j"
      by auto
    from indexOf_Some [OF j] have e: "take j cs @ pat = take (j + length pat) cs"
      and le: "j + length pat \<le> length cs"
      by simp_all
    have "take (length pat) (c # take j cs @ pat) = take (length pat) (c # cs)"
      unfolding e by (cases "length pat") (simp_all add: min_def)
    with False have "\<not> startsWith (c # take j cs @ pat) pat"
      by (simp add: startsWith_def)
    with Cons.IH [OF j] i show ?thesis by simp
  qed
qed

lemma drain_frames:
  "drain parse win b = (evs, rest) \<Longrightarrow>
   \<exists>frames. b = concat (map (\<lambda>f. f @ separator) frames) @ rest \<and>
     (\<forall>f\<in>set frames. indexOf (f @ separator) separator = Some (length f)) \<and>
     indexOf rest separator = None \<and>
     evs = concat (map (flushEvent parse win) frames)"
proof (induction parse win b arbitrary: evs rest rule: drain.induct)
  case (1 parse win buffer)
  show ?case
  proof (cases "indexOf buffer separator")
    case None
    with "1.prems" have "evs = []" "rest = buffer"
      by (simp_all add: drain.simps [of parse win buffer])
    with None show ?thesis
      by (intro exI [of _ "[]"]) simp
  next
    case (Some idx)
    obtain evs' rest' where d: "drain parse win (drop (idx + 2) buffer) = (evs', rest')"
      by (cases "drain parse win (drop (idx + 2) buffer)")
    with Some "1.prems" have evs: "evs = flushEvent parse win (take idx buffer) @ evs'"
      and rest: "rest = rest'"
      by (simp_all add: drain.simps [of parse win buffer])
    from "1.IH" [OF Some d] obtain frames where
      f1: "drop (idx + 2) buffer = concat (map (\<lambda>f. f @ separator) frames) @ rest'"
      and f2: "\<forall>f\<in>set frames. indexOf (f @ separator) separator = Some (length f)"
      and f3: "indexOf rest' separator = None"
      and f4: "evs' = concat (map (flushEvent parse win) frames)"
      by blast
    from indexOf_Some [OF Some] have e: "take idx buffer @ separator = take (idx + 2) buffer"
      and le: "idx + 2 \<le> length buffer"
      by (simp_all add: separator_def)
    have "buffer = take (idx + 2) buffer @ drop (idx + 2) buffer"
      by simp
    then have b: "buffer = (take idx buffer @ separator) @ drop (idx + 2) buffer"
      unfolding e .
    have l: "length (take idx buffer) = idx"
      using le by simp
    have first: "indexOf (take idx buffer @ separator) separator = Some (length (take idx buffer))"
      unfolding l by (rule indexOf_take [OF Some])
    show ?thesis
    proof (intro exI [of _ "take idx buffer # frames"] conjI)
      show "buffer = concat (map (\<lambda>f. f @ separator) (take idx buffer # frames)) @ rest"
        using b f1 rest by simp
      show "\<forall>f\<in>set (take idx buffer # frames). indexOf (f @ separator) separator = Some (length f)"
        using first f2 by simp
      show "indexOf rest separator = None"
        using f3 rest by simp
      show "evs = concat (map (flushEvent parse win) (take idx buffer # frames))"
        using evs f4 by simp
    qed
  qed
qed

lemma replace_crlf_id: "CHR 0x0D \<notin> set s \<Longrightarrow> replace_crlf s = s"
  by (induction s rule: replace_crlf.induct) auto

lemma rest_suffix_no_cr:
  "b = pre @ rest \<Longrightarrow> CHR 0x0D \<notin> set b \<Longrightarrow> CHR 0x0D \<notin> set rest"
  by auto

lemma feed_frames:
  "feed parse win buf chunks = (evs, rest) \<Longrightarrow> indexOf buf separator = None \<Longrightarrow>
   \<exists>frames. evs = concat (map (flushEvent parse win) frames) \<and>
     (\<forall>f\<in>set frames. indexOf (f @ separator) separator = Some (length f)) \<and>
     indexOf rest separator = None \<and>
     (CHR 0x0D \<notin> set (buf @ concat chunks) \<longrightarrow>
        buf @ concat chunks = concat (map (\<lambda>f. f @ separator) frames) @ rest)"
proof (induction chunks arbitrary: buf evs rest)
  case Nil
  then show ?case
    by (intro exI [of _ "[]"]) simp
next
  case (Cons c cs)
  obtain e1 b1 where s1: "on_data parse win buf c = (e1, b1)"
    by (cases "on_data parse win buf c")
  obtain e2 b2 where s2: "feed parse win b1 cs = (e2, b2)"
    by (cases "feed parse win b1 cs")
  from Cons.prems(1) s1 s2 have evs: "evs = e1 @ e2" and rest: "rest = b2"
    by simp_all
  from s1 have "drain parse win (replace_crlf (buf @ c)) = (e1, b1)"
    by (simp add: on_data_def)
  from drain_frames [OF this] obtain fr1 where
    a1: "replace_crlf (buf @ c) = concat (map (\<lambda>f. f @ separator) fr1) @ b1"
    and a2: "\<forall>f\<in>set fr1. indexOf (f @ separator) separator = Some (length f)"
    and a3: "indexOf b1 separator = None"
    and a4: "e1 = concat (map (flushEvent parse win) fr1)"
    by blast
  from Cons.IH [OF s2 a3] obtain fr2 where
    c1: "e2 = concat (map (flushEvent parse win) fr2)"
    and c2: "\<forall>f\<in>set fr2. indexOf (f @ separator) separator = Some (length f)"
    and c3: "indexOf b2 separator = None"
    and c4: "CHR 0x0D \<notin> set (b1 @ concat cs) \<longrightarrow>
        b1 @ concat cs = concat (map (\<lambda>f. f @ separator) fr2) @ b2"
    by blast
  show ?case
  proof (intro exI [of _ "fr1 @ fr2"] conjI impI)
    show "evs = concat (map (flushEvent parse win) (fr1 @ fr2))"
      using evs a4 c1 by simp
    show "\<forall>f\<in>set (fr1 @ fr2). indexOf (f @ separator) separator = Some (length f)"
      using a2 c2 by auto
    show "indexOf rest separator = None"
      using c3 rest by simp
    assume nocr: "CHR 0x0D \<notin> set (buf @ concat (c # cs))"
    then have "CHR 0x0D \<notin> set (buf @ c)" by simp
    then have id: "replace_crlf (buf @ c) = buf @ c"
      by (rule replace_crlf_id)
    with a1 have bc: "buf @ c = concat (map (\<lambda>f. f @ separator) fr1) @ b1"
      by simp
    then have "CHR 0x0D \<notin> set b1"
      using \<open>CHR 0x0D \<notin> set (buf @ c)\<close> by (rule rest_suffix_no_cr)
    with nocr have "CHR 0x0D \<notin> set (b1 @ concat cs)" by simp
    with c4 have "b1 @ concat cs = concat (map (\<lambda>f. f @ separator) fr2) @ b2"
      by simp
    with bc rest show "buf @ concat (c # cs) = concat (map (\<lambda>f. f @ separator) (fr1 @ fr2)) @ rest"
      by (metis append.assoc concat.simps(2) concat_append map_append)
  qed
qed

lemma flushEvent_count:
  "length (flushEvent parse win f) =
     (if win \<and> dataLines f \<noteq> [] \<and>
         (join ''\<newline>'' (dataLines f) = ''[DONE]'' \<or> parse (join ''\<newline>'' (dataLines f)) \<noteq> None)
      then 1 else 0)"
  by (auto simp: flushEvent_def Let_def split: option.splits)


lemma length_concat_le:
  "(\<And>x. length (g x) \<le> 1) \<Longrightarrow> length (concat (map g xs)) \<le> length xs"
proof (induction xs)
  case Nil
  then show ?case by simp
next
  case (Cons a xs)
  have "length (g a) \<le> 1" by (rule Cons.prems)
  moreover have "length (concat (map g xs)) \<le> length xs"
    by (rule Cons.IH) (rule Cons.prems)
  ultimately show ?case by simp
qed

text \<open>
  C1. Each run of the data listener cuts the normalised buffer at its
  double-newline separators, first separator first, interprets exactly the texts in front
  of them, in order, and keeps the text after the last separator, which holds no
  separator and yields no event. Over a whole chunk sequence from the empty buffer the
  events are those of the frames cut, at most one per frame; without carriage returns the
  frames and the remainder are a decomposition of the concatenated input, whatever the
  chunk boundaries. A frame yields exactly one event when the chat window exists, the frame
  has a data line and the joined payload is the DONE sentinel or is accepted by the
  parser, and none otherwise. At the end of the stream a remainder that is not blank is
  interpreted once, as a frame, and a blank remainder is not interpreted.
\<close>

theorem decoder_events_per_frame:
  "(on_data parse win buf chunk = (evs1, rest1) \<longrightarrow>
      (\<exists>frames. replace_crlf (buf @ chunk) = concat (map (\<lambda>f. f @ separator) frames) @ rest1 \<and>
         (\<forall>f\<in>set frames. indexOf (f @ separator) separator = Some (length f)) \<and>
         indexOf rest1 separator = None \<and>
         evs1 = concat (map (flushEvent parse win) frames))) \<and>
   (feed parse win [] chunks = (evs, rest) \<longrightarrow>
      (\<exists>frames. evs = concat (map (flushEvent parse win) frames) \<and>
         length evs \<le> length frames \<and>
         (\<forall>f\<in>set frames. indexOf (f @ separator) separator = Some (length f)) \<and>
         indexOf rest separator = None \<and>
         (CHR 0x0D \<notin> set (concat chunks) \<longrightarrow>
            concat chunks = concat (map (\<lambda>f. f @ separator) frames) @ rest))) \<and>
   length (flushEvent parse win eventText) =
     (if win \<and> dataLines eventText \<noteq> [] \<and>
         (join ''\<newline>'' (dataLines eventText) = ''[DONE]'' \<or>
          parse (join ''\<newline>'' (dataLines eventText)) \<noteq> None)
      then 1 else 0) \<and>
   length (on_end parse win rest) \<le> 1 \<and>
   (trim rest \<noteq> [] \<longrightarrow> on_end parse win rest = flushEvent parse win rest) \<and>
   (trim rest = [] \<longrightarrow> on_end parse win rest = [])"
proof (intro conjI impI)
  assume "on_data parse win buf chunk = (evs1, rest1)"
  then have "drain parse win (replace_crlf (buf @ chunk)) = (evs1, rest1)"
    by (simp add: on_data_def)
  then show "\<exists>frames. replace_crlf (buf @ chunk) = concat (map (\<lambda>f. f @ separator) frames) @ rest1 \<and>
         (\<forall>f\<in>set frames. indexOf (f @ separator) separator = Some (length f)) \<and>
         indexOf rest1 separator = None \<and>
         evs1 = concat (map (flushEvent parse win) frames)"
    by (rule drain_frames)
next
  assume f: "feed parse win [] chunks = (evs, rest)"
  have e: "indexOf [] separator = None"
    by (simp add: separator_def)
  from feed_frames [OF f e] obtain frames where
    1: "evs = concat (map (flushEvent parse win) frames)"
    and 2: "\<forall>f\<in>set frames. indexOf (f @ separator) separator = Some (length f)"
    and 3: "indexOf rest separator = None"
    and 4: "CHR 0x0D \<notin> set ([] @ concat chunks) \<longrightarrow>
        [] @ concat chunks = concat (map (\<lambda>f. f @ separator) frames) @ rest"
    by blast
  have 5: "length evs \<le> length frames"
    unfolding 1 by (rule length_concat_le) (simp add: flushEvent_count)
  from 1 2 3 4 5 show "\<exists>frames. evs = concat (map (flushEvent parse win) frames) \<and>
         length evs \<le> length frames \<and>
         (\<forall>f\<in>set frames. indexOf (f @ separator) separator = Some (length f)) \<and>
         indexOf rest separator = None \<and>
         (CHR 0x0D \<notin> set (concat chunks) \<longrightarrow>
            concat chunks = concat (map (\<lambda>f. f @ separator) frames) @ rest)"
    by (intro exI [of _ frames]) simp
next
  show "length (flushEvent parse win eventText) =
     (if win \<and> dataLines eventText \<noteq> [] \<and>
         (join ''\<newline>'' (dataLines eventText) = ''[DONE]'' \<or>
          parse (join ''\<newline>'' (dataLines eventText)) \<noteq> None)
      then 1 else 0)"
    by (rule flushEvent_count)
next
  show "length (on_end parse win rest) \<le> 1"
    by (simp add: on_end_def flushEvent_count)
next
  assume "trim rest \<noteq> []"
  then show "on_end parse win rest = flushEvent parse win rest"
    by (simp add: on_end_def)
next
  assume "trim rest = []"
  then show "on_end parse win rest = []"
    by (simp add: on_end_def)
qed

text \<open>
  Three complete, separator-terminated frames that yield no event: a comment line; a data
  line with an empty payload, which the parser rejects; and a data line with a payload the
  parser accepts, while there is no chat window.
\<close>

theorem decoder_one_event_per_frame_counterexample:
  "feed parse_integer True [] ['': keep-alive\<newline>\<newline>''] = ([], []) \<and>
   feed parse_integer True [] [''data:\<newline>\<newline>''] = ([], []) \<and>
   feed parse_integer False [] [''data: 1\<newline>\<newline>''] = ([], [])"
  by code_simp

theorem decoder_events_per_frame_witness:
  "feed parse_integer True [] [''data: 1'', ''2\<newline>\<newline>data: [DONE]\<newline>\<newline>data: 3'']
     = ([Json ''12'', FinishPayload], ''data: 3'') \<and>
   (\<exists>frames. [Json ''12'', FinishPayload] = concat (map (flushEvent parse_integer True) frames) \<and>
      length [Json ''12'', FinishPayload] \<le> length frames \<and>
      ''data: 1'' @ ''2\<newline>\<newline>data: [DONE]\<newline>\<newline>data: 3''
        = concat (map (\<lambda>f. f @ separator) frames) @ ''data: 3'') \<and>
   on_data parse_integer True ''data: 1'' ''2\<newline>\<newline>data: [DONE]\<newline>\<newline>data: 3''
     = ([Json ''12'', FinishPayload], ''data: 3'') \<and>
   (\<exists>frames. replace_crlf (''data: 1'' @ ''2\<newline>\<newline>data: [DONE]\<newline>\<newline>data: 3'')
        = concat (map (\<lambda>f. f @ separator) frames) @ ''data: 3'' \<and>
      [Json ''12'', FinishPayload] = concat (map (flushEvent parse_integer True) frames)) \<and>
   on_end parse_integer True ''data: 3'' = [Json ''3''] \<and>
   on_end parse_integer True '' \<newline>'' = []"
proof -
  let ?c = "[''data: 1'', ''2\<newline>\<newline>data: [DONE]\<newline>\<newline>data: 3'']"
  let ?e = "[Json ''12'', FinishPayload]"
  have h: "feed parse_integer True [] ?c = (?e, ''data: 3'')"
    by code_simp
  have h': "on_data parse_integer True ''data: 1'' ''2\<newline>\<newline>data: [DONE]\<newline>\<newline>data: 3''
     = (?e, ''data: 3'')"
    by code_simp
  have nocr: "CHR 0x0D \<notin> set (concat ?c)"
    by simp
  have nb: "trim ''data: 3'' \<noteq> []"
    by (simp add: trim_def trimStart_def trimEnd_def is_space_def)
  have bl: "trim '' \<newline>'' = []"
    by (simp add: trim_def trimStart_def trimEnd_def is_space_def)
  have fl: "flushEvent parse_integer True ''data: 3'' = [Json ''3'']"
    by code_simp
  note t = decoder_events_per_frame [of parse_integer True "''data: 1''"
      "''2\<newline>\<newline>data: [DONE]\<newline>\<newline>data: 3''" ?e "''data: 3''" ?c ?e "''data: 3''"]
  note t' = decoder_events_per_frame [of parse_integer True "''data: 1''"
      "''2\<newline>\<newline>data: [DONE]\<newline>\<newline>data: 3''" ?e "''data: 3''" ?c ?e "'' \<newline>''"]
  from t [THEN conjunct2, THEN conjunct1, THEN mp, OF h] nocr
  have a: "\<exists>frames. ?e = concat (map (flushEvent parse_integer True) frames) \<and>
      length ?e \<le> length frames \<and>
      ''data: 1'' @ ''2\<newline>\<newline>data: [DONE]\<newline>\<newline>data: 3''
        = concat (map (\<lambda>f. f @ separator) frames) @ ''data: 3''"
    by auto
  from t [THEN conjunct1, THEN mp, OF h']
  have b: "\<exists>frames. replace_crlf (''data: 1'' @ ''2\<newline>\<newline>data: [DONE]\<newline>\<newline>data: 3'')
        = concat (map (\<lambda>f. f @ separator) frames) @ ''data: 3'' \<and>
      ?e = concat (map (flushEvent parse_integer True) frames)"
    by blast
  have c: "on_end parse_integer True ''data: 3'' = [Json ''3'']"
    using t [THEN conjunct2, THEN conjunct2, THEN conjunct2, THEN conjunct2, THEN conjunct1,
        THEN mp, OF nb]
    unfolding fl .
  have d: "on_end parse_integer True '' \<newline>'' = []"
    by (rule t' [THEN conjunct2, THEN conjunct2, THEN conjunct2, THEN conjunct2, THEN conjunct2,
        THEN mp, OF bl])
  from h a h' b c d show ?thesis by (intro conjI)
qed

section \<open>Theorems: transport errors\<close>

text \<open>
  C2. A response with status 500 (any status other than 200 takes the same branch) makes
  the response callback throw: the turn ends with the exception at the event loop, no
  event is sent and no response listener is attached. A request error, and a response
  error after a 200 response, are sent to the chat window as error events with the
  underlying message, and so is an exception thrown while the request is created, the
  one case the handler's catch clause covers.
\<close>

theorem non_success_status_is_thrown:
  "turn parse win (Response 500) stream_init
     = (Thrown ''HTTP error! status: 500'', stream_init) \<and>
   submit_input_sync True (Some err) = [ErrorPayload (''Error: '' @ err)] \<and>
   turn parse True (RequestError msg) st
     = (Sent [ErrorPayload (''Request error: '' @ msg)], st) \<and>
   turn parse True (ResError msg) (snd (turn parse True (Response 200) stream_init))
     = (Sent [ErrorPayload (''Stream error: '' @ msg)],
        snd (turn parse True (Response 200) stream_init))"
  by (simp add: response_callback_def digit_char_def show_nat.simps submit_input_sync_def)

section \<open>Theorems: port cleanup\<close>


















end
